theory Spec2Isabelle
  imports Main "HOL-Library.Word" "HOL-Library.AList"
begin

unbundle bit_operations_syntax

section \<open>The local offset store (package kafka)\<close>

subsection \<open>Values\<close>

type_synonym topic = string
type_synonym partition = "32 word"
type_synonym offset = "64 word"
type_synonym bytes = "8 word list"

text \<open>
  A Go \<open>map[int32]int64\<close> is an association list with one entry per key; an assignment
  \<open>m[k] = v\<close> is \<open>AList.update k v m\<close>, \<open>len(m) == 0\<close> is \<open>m = []\<close>.
\<close>

type_synonym pmap = "(partition \<times> offset) list"

text \<open>
  The two sentinel offsets are constants of the broker client library (sarama), which
  declares \<open>OffsetNewest = -1\<close> and \<open>OffsetOldest = -2\<close>. No general theorem below
  unfolds them.
\<close>

definition OffsetNewest :: offset where
  "OffsetNewest = - 1"

definition OffsetOldest :: offset where
  "OffsetOldest = - 2"

text \<open>
  Errors as values. \<open>NotExist\<close> is the error \<open>os.IsNotExist\<close> recognises, \<open>External\<close>
  any other error of a library; the three remaining constructors are the
  \<open>errors.Wrapf\<close> calls of the store, with the values they format.
\<close>

datatype error =
    NotExist
  | External string
  | SerialiseFailed error topic
  | WriteFailed error topic pmap
  | DeserializeFailed error topic

fun IsNotExist :: "error \<Rightarrow> bool" where
  "IsNotExist NotExist = True"
| "IsNotExist _ = False"

text \<open>What a call does: it returns, it panics, or it blocks.\<close>

datatype 'a outcome = Returns 'a | Panics | Blocks

record progress =
  topic :: topic
  partition :: partition
  offset :: offset

subsection \<open>The collaborators: the key-value layer and the serializer\<close>

text \<open>
  The disk store (diskv) keeps one record per key. Its failures are the environment's:
  \<open>read_fault\<close> and \<open>write_fault\<close> say which calls fail and with what error. A write
  that fails is taken to leave the records as they were.
\<close>

record diskv =
  files :: "string \<rightharpoonup> bytes"
  read_fault :: "string \<Rightarrow> error option"
  write_fault :: "string \<Rightarrow> bytes \<Rightarrow> error option"

definition diskv_Read :: "diskv \<Rightarrow> string \<Rightarrow> error + bytes" where
  "diskv_Read d key =
     (case read_fault d key of
        Some e \<Rightarrow> Inl e
      | None \<Rightarrow> (case files d key of None \<Rightarrow> Inl NotExist | Some val \<Rightarrow> Inr val))"

definition diskv_Write :: "diskv \<Rightarrow> string \<Rightarrow> bytes \<Rightarrow> diskv \<times> error option" where
  "diskv_Write d key val =
     (case write_fault d key val of
        Some e \<Rightarrow> (d, Some e)
      | None \<Rightarrow> (d\<lparr>files := (files d)(key \<mapsto> val)\<rparr>, None))"

text \<open>
  The serializer (encoding/gob) is a parameter: \<open>Encode\<close> gives the buffer it leaves and
  the error it returns, \<open>Decode\<close> the mapping or the error.
\<close>

record gob =
  Encode :: "pmap \<Rightarrow> bytes \<times> error option"
  Decode :: "bytes \<Rightarrow> error + pmap"

subsection \<open>The store\<close>

text \<open>
  \<open>db\<close> is a pointer, \<open>None\<close> when nil. \<open>writeErrors\<close> holds the errors sent on the
  error channel, oldest first (the channel is unbuffered: its listener is taken to
  receive each one). \<open>in_chan\<close> is the buffer of the channel \<open>in\<close>, oldest first.
  \<open>running\<close> says that the goroutine of \<open>start\<close> has been launched and has not returned
  (the wait group counts it). The printer only logs and is left out.
\<close>

record localOffsetStore =
  db :: "diskv option"
  writeErrors :: "error list"
  writeErrors_closed :: bool
  in_chan :: "progress list"
  in_closed :: bool
  running :: bool
  offsets :: "topic \<rightharpoonup> pmap"

definition in_capacity :: nat where
  "in_capacity = 100"

definition newLocalOffsetStore :: "diskv \<Rightarrow> localOffsetStore" where
  "newLocalOffsetStore d =
     \<lparr>db = Some d, writeErrors = [], writeErrors_closed = False, in_chan = [],
      in_closed = False, running = False, offsets = Map.empty\<rparr>"

text \<open>A send on the error channel; on a closed channel it panics.\<close>

definition send_error :: "error \<Rightarrow> localOffsetStore \<Rightarrow> localOffsetStore outcome" where
  "send_error e s =
     (if writeErrors_closed s then Panics
      else Returns (s\<lparr>writeErrors := writeErrors s @ [e]\<rparr>))"

definition is_real :: "partition \<times> offset \<Rightarrow> bool" where
  "is_real po = (snd po \<noteq> OffsetNewest \<and> snd po \<noteq> OffsetOldest)"

text \<open>
  \<open>writeOffsetsToDisk\<close>. Go visits the keys of a map in an order it does not specify:
  the first argument after the serializer is the order of this visit (a name that is
  not a key is not visited). The body follows the source line by line: the mapping
  without sentinels, the \<open>return\<close> when it is empty, the encoding, the write.
\<close>

fun writeOffsetsLoop :: "gob \<Rightarrow> topic list \<Rightarrow> localOffsetStore \<Rightarrow> localOffsetStore outcome" where
  "writeOffsetsLoop g [] s = Returns s"
| "writeOffsetsLoop g (t # rest) s =
     (case offsets s t of
        None \<Rightarrow> writeOffsetsLoop g rest s
      | Some offs \<Rightarrow>
          (let toWrite = filter is_real offs in
           if length toWrite = 0 then Returns s
           else
             (case (case snd (Encode g toWrite) of
                      None \<Rightarrow> Returns s
                    | Some e \<Rightarrow> send_error (SerialiseFailed e t) s) of
                Panics \<Rightarrow> Panics
              | Blocks \<Rightarrow> Blocks
              | Returns s1 \<Rightarrow>
                  (case db s1 of
                     None \<Rightarrow> Panics
                   | Some d \<Rightarrow>
                       (let w = diskv_Write d t (fst (Encode g toWrite));
                            s2 = s1\<lparr>db := Some (fst w)\<rparr>
                        in case (case snd w of
                                   None \<Rightarrow> Returns s2
                                 | Some e \<Rightarrow> send_error (WriteFailed e t toWrite) s2) of
                             Panics \<Rightarrow> Panics
                           | Blocks \<Rightarrow> Blocks
                           | Returns s3 \<Rightarrow> writeOffsetsLoop g rest s3)))))"

definition writeOffsetsToDisk :: "gob \<Rightarrow> topic list \<Rightarrow> localOffsetStore \<Rightarrow> localOffsetStore outcome" where
  "writeOffsetsToDisk g visit s = writeOffsetsLoop g visit s"

text \<open>
  \<open>Store\<close>: nothing for a sentinel; otherwise a send on \<open>in\<close>, which panics on a closed
  channel and blocks while the buffer is full. The error it returns is always nil.
\<close>

definition Store :: "localOffsetStore \<Rightarrow> topic \<Rightarrow> partition \<Rightarrow> offset \<Rightarrow> localOffsetStore outcome" where
  "Store s t p o' =
     (if o' = OffsetOldest \<or> o' = OffsetNewest then Returns s
      else if in_closed s then Panics
      else if in_capacity \<le> length (in_chan s) then Blocks
      else Returns (s\<lparr>in_chan := in_chan s @ [\<lparr>topic = t, partition = p, offset = o'\<rparr>]\<rparr>))"

text \<open>
  \<open>Query\<close> returns the store and the pair of results \<open>(map, error)\<close> as a sum. The
  mapping it returns is the one it puts in the cache.
\<close>

definition Query :: "gob \<Rightarrow> localOffsetStore \<Rightarrow> topic \<Rightarrow> (localOffsetStore \<times> (error + pmap)) outcome" where
  "Query g s t =
     (case db s of
        None \<Rightarrow> Panics
      | Some d \<Rightarrow>
          (case diskv_Read d t of
             Inl err \<Rightarrow>
               if IsNotExist err then Returns (s\<lparr>offsets := (offsets s)(t \<mapsto> [])\<rparr>, Inr [])
               else Returns (s, Inl err)
           | Inr val \<Rightarrow>
               (case Decode g val of
                  Inl err \<Rightarrow> Returns (s, Inl (DeserializeFailed err t))
                | Inr m \<Rightarrow> Returns (s\<lparr>offsets := (offsets s)(t \<mapsto> m)\<rparr>, Inr m))))"

text \<open>
  \<open>start\<close> launches the loop. One iteration of its \<open>for\<close> is one \<open>select\<close>: the
  runtime picks a case that is ready, the ticker's or the receive on \<open>in\<close>. A receive
  is ready when the buffer holds a value (it yields the oldest one) or when the channel
  is closed (then \<open>more\<close> is false, and only once the buffer is empty). The iteration
  takes the case picked and the order of the visit of a flush.
\<close>

datatype select_case = TickerC | InRecv

definition start :: "localOffsetStore \<Rightarrow> localOffsetStore" where
  "start s = s\<lparr>running := True\<rparr>"

definition merge_progress :: "progress \<Rightarrow> localOffsetStore \<Rightarrow> localOffsetStore" where
  "merge_progress p s =
     s\<lparr>offsets := (offsets s)(topic p \<mapsto>
          AList.update (partition p) (offset p)
            (case offsets s (topic p) of None \<Rightarrow> [] | Some m \<Rightarrow> m))\<rparr>"

definition loop_iteration ::
  "gob \<Rightarrow> select_case \<Rightarrow> topic list \<Rightarrow> localOffsetStore \<Rightarrow> localOffsetStore outcome" where
  "loop_iteration g c visit s =
     (case c of
        TickerC \<Rightarrow> writeOffsetsToDisk g visit s
      | InRecv \<Rightarrow>
          (case in_chan s of
             p # rest \<Rightarrow> Returns (merge_progress p (s\<lparr>in_chan := rest\<rparr>))
           | [] \<Rightarrow>
               if in_closed s then
                 (case writeOffsetsToDisk g visit s of
                    Returns s1 \<Rightarrow> Returns (s1\<lparr>running := False\<rparr>)
                  | Panics \<Rightarrow> Panics
                  | Blocks \<Rightarrow> Blocks)
               else Blocks))"

text \<open>
  The loop along a schedule, the list of the cases the runtime picks; it stops when the
  goroutine returns. A schedule that ends earlier leaves the goroutine running.
\<close>

type_synonym schedule = "(select_case \<times> topic list) list"

fun loop :: "gob \<Rightarrow> schedule \<Rightarrow> localOffsetStore \<Rightarrow> localOffsetStore outcome" where
  "loop g [] s = Returns s"
| "loop g (cv # sched) s =
     (if \<not> running s then Returns s
      else (case loop_iteration g (fst cv) (snd cv) s of
              Returns s1 \<Rightarrow> loop g sched s1
            | Panics \<Rightarrow> Panics
            | Blocks \<Rightarrow> Blocks))"

text \<open>
  \<open>close\<close> on a pointer to the store (\<open>None\<close> is nil). After \<open>close(s.in)\<close> it waits for
  the goroutine, which runs along the schedule given; while the goroutine has not
  returned, \<open>close\<close> blocks. Closing a closed channel panics.
\<close>

definition close ::
  "gob \<Rightarrow> schedule \<Rightarrow> localOffsetStore option \<Rightarrow> localOffsetStore option outcome" where
  "close g sched sp =
     (case sp of
        None \<Rightarrow> Returns None
      | Some s \<Rightarrow>
          (case db s of
             None \<Rightarrow> Returns (Some s)
           | Some d \<Rightarrow>
               if in_closed s then Panics
               else
                 (case loop g sched (s\<lparr>in_closed := True\<rparr>) of
                    Panics \<Rightarrow> Panics
                  | Blocks \<Rightarrow> Blocks
                  | Returns s1 \<Rightarrow>
                      if running s1 then Blocks
                      else if writeErrors_closed s1 then Panics
                      else Returns (Some (s1\<lparr>writeErrors_closed := True\<rparr>)))))"

subsection \<open>Runs of the store\<close>

text \<open>
  What happens to a store, in order: the calls of its users and the iterations of its
  loop. A run stops at the first step that panics or blocks. (\<open>close\<close> gives a nil
  pointer for a nil pointer only; a run has a store, so that branch of \<open>do_step\<close> is
  never taken.)
\<close>

datatype step =
    CallStore topic partition offset
  | CallQuery topic
  | CallClose schedule
  | LoopStep select_case "topic list"

fun do_step :: "gob \<Rightarrow> step \<Rightarrow> localOffsetStore \<Rightarrow> localOffsetStore outcome" where
  "do_step g (CallStore t p o') s = Store s t p o'"
| "do_step g (CallQuery t) s =
     (case Query g s t of
        Returns r \<Rightarrow> Returns (fst r)
      | Panics \<Rightarrow> Panics
      | Blocks \<Rightarrow> Blocks)"
| "do_step g (CallClose sched) s =
     (case close g sched (Some s) of
        Returns (Some s1) \<Rightarrow> Returns s1
      | Returns None \<Rightarrow> Panics
      | Panics \<Rightarrow> Panics
      | Blocks \<Rightarrow> Blocks)"
| "do_step g (LoopStep c visit) s =
     (if running s then loop_iteration g c visit s else Blocks)"

fun run :: "gob \<Rightarrow> step list \<Rightarrow> localOffsetStore \<Rightarrow> localOffsetStore outcome" where
  "run g [] s = Returns s"
| "run g (x # xs) s =
     (case do_step g x s of
        Returns s1 \<Rightarrow> run g xs s1
      | Panics \<Rightarrow> Panics
      | Blocks \<Rightarrow> Blocks)"

text \<open>
  A mapping without sentinel offsets, and a disk on which every record is the buffer
  the serializer left for such a mapping.
\<close>

definition sentinel_free :: "pmap \<Rightarrow> bool" where
  "sentinel_free m = list_all is_real m"

definition persisted_clean :: "gob \<Rightarrow> localOffsetStore \<Rightarrow> bool" where
  "persisted_clean g s =
     (\<forall>d t b. db s = Some d \<longrightarrow> files d t = Some b \<longrightarrow>
        (\<exists>m. b = fst (Encode g m) \<and> sentinel_free m))"

text \<open>Fixtures of the examples: a disk without records and without faults.\<close>

definition empty_disk :: diskv where
  "empty_disk = \<lparr>files = Map.empty, read_fault = (\<lambda>k. None), write_fault = (\<lambda>k v. None)\<rparr>"

text \<open>
  A serializer for the examples: each entry as the four bytes of the partition and the
  eight bytes of the offset, most significant first. It never fails to encode, and it
  refuses a buffer that does not end with a whole entry.
\<close>

definition be32 :: "partition \<Rightarrow> bytes" where
  "be32 w = map (\<lambda>i. ucast (drop_bit (8 * i) w)) [3, 2, 1, 0]"

definition be64 :: "offset \<Rightarrow> bytes" where
  "be64 w = map (\<lambda>i. ucast (drop_bit (8 * i) w)) [7, 6, 5, 4, 3, 2, 1, 0]"

definition un32 :: "bytes \<Rightarrow> partition" where
  "un32 bs = foldl (\<lambda>acc b. push_bit 8 acc OR ucast b) 0 bs"

definition un64 :: "bytes \<Rightarrow> offset" where
  "un64 bs = foldl (\<lambda>acc b. push_bit 8 acc OR ucast b) 0 bs"

fun example_decode :: "nat \<Rightarrow> bytes \<Rightarrow> error + pmap" where
  "example_decode n [] = Inr []"
| "example_decode 0 bs = Inl (External ''unexpected EOF'')"
| "example_decode (Suc n) bs =
     (if length bs < 12 then Inl (External ''unexpected EOF'')
      else (case example_decode n (drop 12 bs) of
              Inl e \<Rightarrow> Inl e
            | Inr m \<Rightarrow> Inr ((un32 (take 4 bs), un64 (take 8 (drop 4 bs))) # m)))"

definition example_gob :: gob where
  "example_gob =
     \<lparr>Encode = (\<lambda>m. (concat (map (\<lambda>po. be32 (fst po) @ be64 (snd po)) m), None)),
      Decode = (\<lambda>bs. example_decode (length bs) bs)\<rparr>"

subsection \<open>Notions for the properties of runs\<close>

text \<open>
  The cache once the loop has received what the queue holds (\<open>pending\<close>), the offset it
  has for a partition, the real offsets a run stores, the runs that store on one
  partition only (with any iterations of the loop in between), and the visits of a flush
  that come to a topic before any topic whose mapping has no real offset.
\<close>

definition merge_offsets :: "progress \<Rightarrow> (topic \<rightharpoonup> pmap) \<Rightarrow> (topic \<rightharpoonup> pmap)" where
  "merge_offsets x m =
     m(topic x \<mapsto> AList.update (partition x) (offset x)
                     (case m (topic x) of None \<Rightarrow> [] | Some al \<Rightarrow> al))"

definition pending :: "localOffsetStore \<Rightarrow> (topic \<rightharpoonup> pmap)" where
  "pending s = fold merge_offsets (in_chan s) (offsets s)"

definition offset_of :: "(topic \<rightharpoonup> pmap) \<Rightarrow> topic \<Rightarrow> partition \<Rightarrow> offset option" where
  "offset_of m t p = (case m t of None \<Rightarrow> None | Some al \<Rightarrow> map_of al p)"

fun stored_real :: "step list \<Rightarrow> offset list" where
  "stored_real [] = []"
| "stored_real (CallStore t p v # xs) =
     (if v = OffsetOldest \<or> v = OffsetNewest then stored_real xs else v # stored_real xs)"
| "stored_real (x # xs) = stored_real xs"

fun on_partition :: "topic \<Rightarrow> partition \<Rightarrow> step \<Rightarrow> bool" where
  "on_partition t p (CallStore t' p' v) = (t' = t \<and> p' = p)"
| "on_partition t p (LoopStep c visit) = True"
| "on_partition t p x = False"

fun reaches :: "(topic \<rightharpoonup> pmap) \<Rightarrow> topic list \<Rightarrow> topic \<Rightarrow> bool" where
  "reaches m [] t = False"
| "reaches m (u # us) t =
     (if u = t then t \<notin> set us
      else (case m u of
              None \<Rightarrow> reaches m us t
            | Some al \<Rightarrow> filter is_real al \<noteq> [] \<and> reaches m us t))"

section \<open>The command (package main)\<close>

subsection \<open>Checkpoints\<close>

text \<open>
  Modelled from the spec: the type \<open>Checkpoint\<close> of the package kafka and its functions
  \<open>NewCheckpoint\<close>, \<open>SetOffset\<close> and \<open>SetTimeOffset\<close>, which are not among the source
  files. The spec gives a Checkpoint the attributes \<open>rewindToOldest\<close>, \<open>explicitOffset\<close>
  and \<open>explicitTimestamp\<close>, the last two optional; a new one has neither, and each
  setter sets its own attribute. The normalisation of an explicit offset is the broker
  client's and is not modelled. A time is an integer.
\<close>

record Checkpoint =
  rewindToOldest :: bool
  explicitOffset :: "offset option"
  explicitTimestamp :: "int option"

definition NewCheckpoint :: "bool \<Rightarrow> Checkpoint" where
  "NewCheckpoint rewind =
     \<lparr>rewindToOldest = rewind, explicitOffset = None, explicitTimestamp = None\<rparr>"

definition SetOffset :: "offset \<Rightarrow> Checkpoint \<Rightarrow> Checkpoint" where
  "SetOffset v cp = cp\<lparr>explicitOffset := Some v\<rparr>"

definition SetTimeOffset :: "int \<Rightarrow> Checkpoint \<Rightarrow> Checkpoint" where
  "SetTimeOffset at cp = cp\<lparr>explicitTimestamp := Some at\<rparr>"

text \<open>A command-line flag: whether the user set it, and its value (the default otherwise).\<close>

record 'a flag =
  IsSet :: bool
  Get :: 'a

definition getCheckpoint :: "bool \<Rightarrow> int flag \<Rightarrow> offset flag \<Rightarrow> Checkpoint" where
  "getCheckpoint rewind timeCheckpoint offsetCheckpoint =
     (let cp = NewCheckpoint rewind in
      if IsSet offsetCheckpoint then SetOffset (Get offsetCheckpoint) cp
      else if IsSet timeCheckpoint then SetTimeOffset (Get timeCheckpoint) cp
      else cp)"

subsection \<open>Processing one event\<close>

text \<open>
  Modelled from the spec: the type \<open>Event\<close> of the package kafka, which is not among the
  source files; the spec gives it a topic, a partition, an offset, a timestamp and the
  raw bytes of the value.
\<close>

record event =
  Topic :: string
  Partition :: partition
  Offset :: offset
  Timestamp :: int
  Value :: bytes

text \<open>
  The codec is a collaborator: \<open>loader_Get\<close> is \<open>loader.Get\<close>, \<open>proto_Unmarshal\<close> is
  \<open>proto.Unmarshal\<close> (it returns the message it filled) and \<open>marshaller_Marshal\<close> is
  \<open>marshaller.Marshal\<close>. A compiled regular expression is its \<open>Match\<close>, a predicate on
  bytes; \<open>None\<close> is the nil pointer.
\<close>

record 'm codec =
  loader_Get :: "string \<Rightarrow> error + 'm"
  proto_Unmarshal :: "bytes \<Rightarrow> 'm \<Rightarrow> error + 'm"
  marshaller_Marshal :: "'m \<Rightarrow> int \<Rightarrow> error + bytes"

type_synonym regexp = "bytes \<Rightarrow> bool"

text \<open>
  \<open>process\<close> returns \<open>Inl err\<close> for \<open>(nil, err)\<close>, \<open>Inr None\<close> for \<open>(nil, nil)\<close> and
  \<open>Inr (Some output)\<close> for \<open>(output, nil)\<close>.
\<close>

definition process ::
  "string \<Rightarrow> 'm codec \<Rightarrow> event \<Rightarrow> regexp option \<Rightarrow> bool \<Rightarrow> error + bytes option" where
  "process messageType c ev search reverse =
     (case loader_Get c messageType of
        Inl err \<Rightarrow> Inl err
      | Inr msg \<Rightarrow>
          (case proto_Unmarshal c (Value ev) msg of
             Inl err \<Rightarrow> Inl err
           | Inr msg' \<Rightarrow>
               (case marshaller_Marshal c msg' (Timestamp ev) of
                  Inl err \<Rightarrow> Inl err
                | Inr output \<Rightarrow>
                    if (case search of None \<Rightarrow> False | Some re \<Rightarrow> re output = reverse)
                    then Inr None
                    else Inr (Some output))))"

subsection \<open>The loop of the consumer goroutine\<close>

text \<open>
  One iteration is one \<open>select\<close>: the context is done, an event arrives, or the channel
  of events is closed. What the loop does to its collaborators is the list of its
  effects: \<open>stopConsumer()\<close>, \<open>prn.WriteEvent\<close>, \<open>consumer.StoreOffset\<close> and the
  forced log line of a failure, with the offset, the partition, the topic and the error.
\<close>

datatype selected = CtxDone | Received event | EventsClosed

datatype effect =
    StopConsumer
  | WriteEvent string "bytes option"
  | StoreOffset event
  | LogFailed offset partition string error

text \<open>
  \<open>tm\<close> maps a topic to its message type; a missing key reads as the empty string.
  The loop runs along the list of what its selects yield. It gives its effects, whether
  it has returned, and what it has not read of the list; a list without
  \<open>EventsClosed\<close> leaves it waiting in a \<open>select\<close>.
\<close>

definition lookup_tm :: "(string \<rightharpoonup> string) \<Rightarrow> string \<Rightarrow> string" where
  "lookup_tm tm t = (case tm t of None \<Rightarrow> [] | Some messageType \<Rightarrow> messageType)"

definition emit :: "effect list \<Rightarrow> effect list \<times> bool \<times> selected list \<Rightarrow> effect list \<times> bool \<times> selected list" where
  "emit es r = (es @ fst r, snd r)"

fun consume ::
  "(string \<rightharpoonup> string) \<Rightarrow> 'm codec \<Rightarrow> regexp option \<Rightarrow> bool \<Rightarrow> bool \<Rightarrow> selected list
     \<Rightarrow> effect list \<times> bool \<times> selected list" where
  "consume tm c searchExpression reversed cancelled [] = ([], False, [])"
| "consume tm c searchExpression reversed cancelled (CtxDone # xs) =
     (if \<not> cancelled then emit [StopConsumer] (consume tm c searchExpression reversed True xs)
      else consume tm c searchExpression reversed cancelled xs)"
| "consume tm c searchExpression reversed cancelled (EventsClosed # xs) = ([], True, xs)"
| "consume tm c searchExpression reversed cancelled (Received ev # xs) =
     (if cancelled then consume tm c searchExpression reversed cancelled xs
      else
        (case process (lookup_tm tm (Topic ev)) c ev searchExpression reversed of
           Inr output \<Rightarrow>
             emit [WriteEvent (Topic ev) output, StoreOffset ev]
               (consume tm c searchExpression reversed cancelled xs)
         | Inl err \<Rightarrow>
             emit [LogFailed (Offset ev) (Partition ev) (Topic ev) err]
               (consume tm c searchExpression reversed cancelled xs)))"

text \<open>
  A codec and a pattern for the examples: the message is the bytes of the value, an
  empty value does not decode and an empty message type is not known; the pattern
  matches the outputs that contain given bytes.
\<close>

definition example_codec :: "bytes codec" where
  "example_codec =
     \<lparr>loader_Get = (\<lambda>n. if n = [] then Inl (External ''unknown message type'') else Inr []),
      proto_Unmarshal = (\<lambda>v m. if v = [] then Inl (External ''empty value'') else Inr v),
      marshaller_Marshal = (\<lambda>m ts. Inr m)\<rparr>"

fun containing :: "bytes \<Rightarrow> regexp" where
  "containing pat [] = (pat = [])"
| "containing pat (b # bs) = (take (length pat) (b # bs) = pat \<or> containing pat bs)"

definition example_event :: "offset \<Rightarrow> bytes \<Rightarrow> event" where
  "example_event n v = \<lparr>Topic = ''orders'', Partition = 0, Offset = n, Timestamp = 0, Value = v\<rparr>"

section \<open>Properties of the offset store\<close>

subsection \<open>What a flush may write\<close>

lemma persisted_clean_db:
  "persisted_clean g s \<Longrightarrow> db s' = db s \<Longrightarrow> persisted_clean g s'"
  by (simp add: persisted_clean_def)

lemma send_error_db: "send_error e s = Returns s' \<Longrightarrow> db s' = db s"
  by (auto simp: send_error_def split: if_splits)

lemma sentinel_free_filter: "sentinel_free (filter is_real m)"
  by (simp add: sentinel_free_def list_all_iff)

lemma persisted_clean_write:
  assumes "persisted_clean g s" and "db s = Some d" and "sentinel_free m"
    and "db s2 = Some (fst (diskv_Write d t (fst (Encode g m))))"
  shows "persisted_clean g s2"
  unfolding persisted_clean_def
proof (intro allI impI)
  fix d' t' b
  assume d': "db s2 = Some d'" and b: "files d' t' = Some b"
  from d' assms(4) have eq: "d' = fst (diskv_Write d t (fst (Encode g m)))" by simp
  have old: "\<And>k v. files d k = Some v \<Longrightarrow> \<exists>m. v = fst (Encode g m) \<and> sentinel_free m"
    using assms(1,2) unfolding persisted_clean_def by blast
  show "\<exists>m. b = fst (Encode g m) \<and> sentinel_free m"
  proof (cases "write_fault d t (fst (Encode g m))")
    case (Some e)
    then have "d' = d" using eq by (simp add: diskv_Write_def)
    with b old show ?thesis by blast
  next
    case None
    then have f: "files d' = (files d)(t \<mapsto> fst (Encode g m))"
      using eq by (simp add: diskv_Write_def)
    show ?thesis
    proof (cases "t' = t")
      case True
      with b f have "b = fst (Encode g m)" by simp
      with assms(3) show ?thesis by blast
    next
      case False
      with b f have "files d t' = Some b" by simp
      with old show ?thesis by blast
    qed
  qed
qed

lemma writeOffsetsLoop_clean:
  "persisted_clean g s \<Longrightarrow> writeOffsetsLoop g visit s = Returns s' \<Longrightarrow> persisted_clean g s'"
proof (induction visit arbitrary: s)
  case Nil
  then show ?case by simp
next
  case (Cons t rest)
  show ?case
  proof (cases "offsets s t")
    case None
    with Cons show ?thesis by simp
  next
    case (Some offs)
    let ?w = "filter is_real offs"
    show ?thesis
    proof (cases "?w = []")
      case True
      with Cons.prems Some show ?thesis by simp
    next
      case False
      obtain s1 where s1: "(case snd (Encode g ?w) of None \<Rightarrow> Returns s
                | Some e \<Rightarrow> send_error (SerialiseFailed e t) s) = Returns s1"
        using Cons.prems(2) Some False by (auto simp: Let_def split: outcome.splits)
      then have db1: "db s1 = db s"
        by (auto split: option.splits dest: send_error_db)
      obtain d where d: "db s1 = Some d"
        using Cons.prems(2) Some False s1 by (auto simp: Let_def split: option.splits)
      let ?s2 = "s1\<lparr>db := Some (fst (diskv_Write d t (fst (Encode g ?w))))\<rparr>"
      obtain s3 where s3: "(case snd (diskv_Write d t (fst (Encode g ?w))) of None \<Rightarrow> Returns ?s2
                | Some e \<Rightarrow> send_error (WriteFailed e t ?w) ?s2) = Returns s3"
        and rest: "writeOffsetsLoop g rest s3 = Returns s'"
        using Cons.prems(2) Some False s1 d by (auto simp: Let_def split: outcome.splits)
      have "persisted_clean g s1"
        using Cons.prems(1) db1 by (rule persisted_clean_db)
      then have "persisted_clean g ?s2"
        using d sentinel_free_filter [of offs] persisted_clean_write [of g s1 d ?w ?s2 t] by simp
      moreover have "db s3 = db ?s2"
        using s3 by (auto split: option.splits dest: send_error_db)
      ultimately have "persisted_clean g s3"
        by (rule persisted_clean_db)
      then show ?thesis using rest by (rule Cons.IH)
    qed
  qed
qed

lemma Store_db: "Store s t p o' = Returns s' \<Longrightarrow> db s' = db s"
  by (auto simp: Store_def split: if_splits)

lemma Query_db: "Query g s t = Returns r \<Longrightarrow> db (fst r) = db s"
  by (auto simp: Query_def split: option.splits sum.splits if_splits)

lemma merge_progress_db: "db (merge_progress p s) = db s"
  by (simp add: merge_progress_def)

lemma loop_iteration_clean:
  assumes "persisted_clean g s" and "loop_iteration g c visit s = Returns s'"
  shows "persisted_clean g s'"
proof (cases c)
  case TickerC
  with assms show ?thesis
    by (auto simp: loop_iteration_def writeOffsetsToDisk_def dest: writeOffsetsLoop_clean)
next
  case InRecv
  show ?thesis
  proof (cases "in_chan s")
    case (Cons p rest)
    with assms(2) InRecv have "s' = merge_progress p (s\<lparr>in_chan := rest\<rparr>)"
      by (simp add: loop_iteration_def)
    then have "db s' = db s" by (simp add: merge_progress_db)
    with assms(1) show ?thesis by (rule persisted_clean_db)
  next
    case Nil
    with assms(2) InRecv obtain s1 where f: "writeOffsetsLoop g visit s = Returns s1"
      and e: "s' = s1\<lparr>running := False\<rparr>"
      by (auto simp: loop_iteration_def writeOffsetsToDisk_def split: if_splits outcome.splits)
    from assms(1) f have "persisted_clean g s1" by (rule writeOffsetsLoop_clean)
    moreover from e have "db s' = db s1" by simp
    ultimately show ?thesis by (rule persisted_clean_db)
  qed
qed

lemma loop_clean:
  "persisted_clean g s \<Longrightarrow> loop g sched s = Returns s' \<Longrightarrow> persisted_clean g s'"
proof (induction sched arbitrary: s)
  case Nil
  then show ?case by simp
next
  case (Cons cv sched)
  show ?case
  proof (cases "running s")
    case False
    with Cons.prems show ?thesis by simp
  next
    case True
    with Cons.prems(2) obtain s1 where i: "loop_iteration g (fst cv) (snd cv) s = Returns s1"
      and r: "loop g sched s1 = Returns s'"
      by (auto split: outcome.splits)
    from Cons.prems(1) i have "persisted_clean g s1" by (rule loop_iteration_clean)
    then show ?thesis using r by (rule Cons.IH)
  qed
qed

lemma close_clean:
  assumes "persisted_clean g s" and "close g sched (Some s) = Returns (Some s')"
  shows "persisted_clean g s'"
proof (cases "db s")
  case None
  with assms show ?thesis by (simp add: close_def)
next
  case (Some d)
  with assms(2) obtain s1 where l: "loop g sched (s\<lparr>in_closed := True\<rparr>) = Returns s1"
    and e: "s' = s1\<lparr>writeErrors_closed := True\<rparr>"
    by (auto simp: close_def split: if_splits outcome.splits)
  have "persisted_clean g (s\<lparr>in_closed := True\<rparr>)"
    using assms(1) by (rule persisted_clean_db) simp
  then have "persisted_clean g s1" using l by (rule loop_clean)
  moreover from e have "db s' = db s1" by simp
  ultimately show ?thesis by (rule persisted_clean_db)
qed

lemma do_step_clean:
  assumes "persisted_clean g s" and "do_step g x s = Returns s'"
  shows "persisted_clean g s'"
proof (cases x)
  case (CallStore t p o')
  with assms(2) have "db s' = db s" by (auto dest: Store_db)
  with assms(1) show ?thesis by (rule persisted_clean_db)
next
  case (CallQuery t)
  with assms(2) have "db s' = db s" by (auto split: outcome.splits dest: Query_db)
  with assms(1) show ?thesis by (rule persisted_clean_db)
next
  case (CallClose sched)
  with assms(2) have "close g sched (Some s) = Returns (Some s')"
    by (auto split: outcome.splits option.splits)
  with assms(1) show ?thesis by (rule close_clean)
next
  case (LoopStep c visit)
  with assms(2) have "loop_iteration g c visit s = Returns s'"
    by (auto split: if_splits)
  with assms(1) show ?thesis by (rule loop_iteration_clean)
qed

lemma run_clean:
  "persisted_clean g s \<Longrightarrow> run g xs s = Returns s' \<Longrightarrow> persisted_clean g s'"
proof (induction xs arbitrary: s)
  case Nil
  then show ?case by simp
next
  case (Cons x xs)
  from Cons.prems(2) obtain s1 where i: "do_step g x s = Returns s1"
    and r: "run g xs s1 = Returns s'"
    by (auto split: outcome.splits)
  from Cons.prems(1) i have "persisted_clean g s1" by (rule do_step_clean)
  then show ?case using r by (rule Cons.IH)
qed

lemmas store_defs = newLocalOffsetStore_def start_def empty_disk_def Store_def Query_def
  diskv_Read_def diskv_Write_def send_error_def loop_iteration_def merge_progress_def
  writeOffsetsToDisk_def close_def is_real_def OffsetNewest_def OffsetOldest_def
  in_capacity_def Let_def

subsection \<open>What a flush does, topic by topic\<close>

text \<open>
  An iteration of the flush on a topic whose mapping has a real offset: a failure of the
  serializer or of the write is sent on the error channel, and the flush goes on to the
  topics that remain (after a failure of the serializer it still writes the buffer).
\<close>

lemma writeOffsetsLoop_failure_continues:
  assumes "offsets s t = Some offs" and "filter is_real offs \<noteq> []"
    and "db s = Some d" and "\<not> writeErrors_closed s"
  shows "writeOffsetsLoop g (t # rest) s =
           writeOffsetsLoop g rest
             (s\<lparr>writeErrors := writeErrors s
                  @ (case snd (Encode g (filter is_real offs)) of
                       None \<Rightarrow> [] | Some e \<Rightarrow> [SerialiseFailed e t])
                  @ (case snd (diskv_Write d t (fst (Encode g (filter is_real offs)))) of
                       None \<Rightarrow> [] | Some e \<Rightarrow> [WriteFailed e t (filter is_real offs)]),
                db := Some (fst (diskv_Write d t (fst (Encode g (filter is_real offs)))))\<rparr>)"
proof -
  let ?w = "diskv_Write d t (fst (Encode g (filter is_real offs)))"
  let ?s1 = "case snd (Encode g (filter is_real offs)) of
               None \<Rightarrow> s
             | Some e \<Rightarrow> s\<lparr>writeErrors := writeErrors s @ [SerialiseFailed e t]\<rparr>"
  let ?s2 = "?s1\<lparr>db := Some (fst ?w)\<rparr>"
  let ?s3 = "case snd ?w of
               None \<Rightarrow> ?s2
             | Some e \<Rightarrow> ?s2\<lparr>writeErrors := writeErrors ?s2 @ [WriteFailed e t (filter is_real offs)]\<rparr>"
  have "writeOffsetsLoop g (t # rest) s = writeOffsetsLoop g rest ?s3"
    using assms by (simp add: Let_def send_error_def split: option.splits)
  moreover have "?s3 =
      s\<lparr>writeErrors := writeErrors s
           @ (case snd (Encode g (filter is_real offs)) of
                None \<Rightarrow> [] | Some e \<Rightarrow> [SerialiseFailed e t])
           @ (case snd ?w of
                None \<Rightarrow> [] | Some e \<Rightarrow> [WriteFailed e t (filter is_real offs)]),
         db := Some (fst ?w)\<rparr>"
    by (rule localOffsetStore.equality) (simp_all split: option.splits)
  ultimately show ?thesis by simp
qed

lemma writeOffsetsLoop_Cons_cases:
  assumes "writeOffsetsLoop g (t # rest) s = Returns s'"
  obtains (absent) "offsets s t = None" and "writeOffsetsLoop g rest s = Returns s'"
  | (empty) offs where "offsets s t = Some offs" and "filter is_real offs = []" and "s' = s"
  | (written) offs d s3 where "offsets s t = Some offs" and "filter is_real offs \<noteq> []"
      and "db s = Some d"
      and "db s3 = Some (fst (diskv_Write d t (fst (Encode g (filter is_real offs)))))"
      and "offsets s3 = offsets s" and "in_chan s3 = in_chan s"
      and "writeOffsetsLoop g rest s3 = Returns s'"
proof (cases "offsets s t")
  case None
  with assms have "writeOffsetsLoop g rest s = Returns s'" by simp
  with None show ?thesis by (rule absent)
next
  case (Some offs)
  show ?thesis
  proof (cases "filter is_real offs = []")
    case True
    with assms Some have "s' = s" by simp
    with Some True show ?thesis by (rule empty)
  next
    case False
    let ?w = "filter is_real offs"
    obtain s1 where s1: "(case snd (Encode g ?w) of None \<Rightarrow> Returns s
                | Some e \<Rightarrow> send_error (SerialiseFailed e t) s) = Returns s1"
      using assms Some False by (auto simp: Let_def split: outcome.splits)
    then have f1: "db s1 = db s \<and> offsets s1 = offsets s \<and> in_chan s1 = in_chan s"
      by (auto simp: send_error_def split: option.splits if_splits)
    obtain d where d: "db s1 = Some d"
      using assms Some False s1 by (auto simp: Let_def split: option.splits)
    let ?s2 = "s1\<lparr>db := Some (fst (diskv_Write d t (fst (Encode g ?w))))\<rparr>"
    obtain s3 where s3: "(case snd (diskv_Write d t (fst (Encode g ?w))) of None \<Rightarrow> Returns ?s2
                | Some e \<Rightarrow> send_error (WriteFailed e t ?w) ?s2) = Returns s3"
      and rest: "writeOffsetsLoop g rest s3 = Returns s'"
      using assms Some False s1 d by (auto simp: Let_def split: outcome.splits)
    from s3 have f3: "db s3 = db ?s2 \<and> offsets s3 = offsets ?s2 \<and> in_chan s3 = in_chan ?s2"
      by (auto simp: send_error_def split: option.splits if_splits)
    from d f1 have a: "db s = Some d" by simp
    from f3 have b: "db s3 = Some (fst (diskv_Write d t (fst (Encode g ?w))))" by simp
    from f1 f3 have c: "offsets s3 = offsets s" and e: "in_chan s3 = in_chan s" by simp_all
    from Some False a b c e rest show ?thesis by (rule written)
  qed
qed

lemma writeOffsetsLoop_frame:
  "writeOffsetsLoop g visit s = Returns s' \<Longrightarrow>
     offsets s' = offsets s \<and> in_chan s' = in_chan s"
proof (induction visit arbitrary: s)
  case Nil
  then show ?case by simp
next
  case (Cons t rest)
  from Cons.prems show ?case
  proof (cases rule: writeOffsetsLoop_Cons_cases)
    case absent
    then show ?thesis using Cons.IH by blast
  next
    case (empty offs)
    then show ?thesis by simp
  next
    case (written offs d s3)
    with Cons.IH [of s3] show ?thesis by simp
  qed
qed

lemma diskv_Write_other:
  "k \<noteq> t \<Longrightarrow> files (fst (diskv_Write d k v)) t = files d t"
  by (simp add: diskv_Write_def split: option.splits)

lemma diskv_Write_faults:
  "read_fault (fst (diskv_Write d k v)) = read_fault d
   \<and> write_fault (fst (diskv_Write d k v)) = write_fault d"
  by (simp add: diskv_Write_def split: option.splits)

lemma diskv_Write_same:
  "write_fault d t v = None \<Longrightarrow> files (fst (diskv_Write d t v)) t = Some v"
  by (simp add: diskv_Write_def)

lemma writeOffsetsLoop_other:
  "t \<notin> set visit \<Longrightarrow> writeOffsetsLoop g visit s = Returns s' \<Longrightarrow> db s = Some d \<Longrightarrow>
     \<exists>d'. db s' = Some d' \<and> files d' t = files d t \<and> read_fault d' = read_fault d"
proof (induction visit arbitrary: s d)
  case Nil
  then show ?case by simp
next
  case (Cons u rest)
  from Cons.prems(2) show ?case
  proof (cases rule: writeOffsetsLoop_Cons_cases)
    case absent
    then show ?thesis using Cons.IH [of s d] Cons.prems by simp
  next
    case (empty offs)
    then show ?thesis using Cons.prems by simp
  next
    case (written offs d0 s3)
    with Cons.prems have d0: "d0 = d" and ut: "u \<noteq> t" and nt: "t \<notin> set rest" by auto
    let ?d3 = "fst (diskv_Write d u (fst (Encode g (filter is_real offs))))"
    from written d0 have "db s3 = Some ?d3" by simp
    from Cons.IH [OF nt written(7) this]
    obtain d' where "db s' = Some d'" "files d' t = files ?d3 t" "read_fault d' = read_fault ?d3"
      by blast
    then show ?thesis using ut diskv_Write_other [of u t d] diskv_Write_faults [of d u] by simp
  qed
qed

lemma writeOffsetsLoop_reaches:
  "reaches (offsets s) visit t \<Longrightarrow> offsets s t = Some offs \<Longrightarrow> filter is_real offs \<noteq> [] \<Longrightarrow>
   db s = Some d \<Longrightarrow> (\<forall>v. write_fault d t v = None) \<Longrightarrow>
   writeOffsetsLoop g visit s = Returns s' \<Longrightarrow>
     \<exists>d'. db s' = Some d' \<and> files d' t = Some (fst (Encode g (filter is_real offs)))
          \<and> read_fault d' = read_fault d"
proof (induction visit arbitrary: s d)
  case Nil
  then show ?case by simp
next
  case (Cons u rest)
  from Cons.prems(6) show ?case
  proof (cases rule: writeOffsetsLoop_Cons_cases)
    case absent
    with Cons.prems(2) have ut: "u \<noteq> t" by auto
    with Cons.prems(1) absent have "reaches (offsets s) rest t" by simp
    with Cons.IH [of s d] Cons.prems absent show ?thesis by simp
  next
    case (empty al)
    with Cons.prems show ?thesis by (auto split: if_splits)
  next
    case (written al d0 s3)
    with Cons.prems have d0: "d0 = d" by simp
    let ?d3 = "fst (diskv_Write d u (fst (Encode g (filter is_real al))))"
    from written d0 have db3: "db s3 = Some ?d3" by simp
    show ?thesis
    proof (cases "u = t")
      case True
      with Cons.prems written have al: "al = offs" and nt: "t \<notin> set rest" by auto
      from True al Cons.prems(5) have "files ?d3 t = Some (fst (Encode g (filter is_real offs)))"
        by (simp add: diskv_Write_same)
      moreover from writeOffsetsLoop_other [OF nt written(7) db3]
      obtain d' where "db s' = Some d'" "files d' t = files ?d3 t" "read_fault d' = read_fault ?d3"
        by blast
      ultimately show ?thesis using diskv_Write_faults [of d u] by simp
    next
      case False
      with Cons.prems written have r: "reaches (offsets s3) rest t" by simp
      have w: "\<forall>v. write_fault ?d3 t v = None"
        using Cons.prems(5) diskv_Write_faults [of d u] by simp
      from Cons.IH [OF r _ Cons.prems(3) db3 w written(7)] written(5) Cons.prems(2)
      obtain d' where "db s' = Some d'"
        "files d' t = Some (fst (Encode g (filter is_real offs)))" "read_fault d' = read_fault ?d3"
        by auto
      then show ?thesis using diskv_Write_faults [of d u] by simp
    qed
  qed
qed


subsection \<open>Last write wins\<close>

text \<open>
  The offset the cache will have for a partition, once the queue is received, is the
  last real offset stored; so after the Store calls on one partition that the loop has
  consumed, a flush that comes to the topic writes a record from which Query returns
  the last real offset, when the disk does not fail on the topic and the serializer
  decodes what it encodes.
\<close>

lemma merge_progress_offsets:
  "offsets (merge_progress x s) = merge_offsets x (offsets s)"
  by (simp add: merge_progress_def merge_offsets_def)

lemma merge_progress_in_chan: "in_chan (merge_progress x s) = in_chan s"
  by (simp add: merge_progress_def)

lemma offset_of_merge:
  "offset_of (merge_offsets \<lparr>topic = t, partition = p, offset = v\<rparr> m) t p = Some v"
  by (simp add: offset_of_def merge_offsets_def update_conv')

lemma pending_Store:
  assumes "Store s t p v = Returns s'"
  shows "offset_of (pending s') t p =
           (if v = OffsetOldest \<or> v = OffsetNewest then offset_of (pending s) t p else Some v)"
proof (cases "v = OffsetOldest \<or> v = OffsetNewest")
  case True
  with assms have "s' = s" by (auto simp: Store_def)
  with True show ?thesis by simp
next
  case False
  with assms have "in_chan s' = in_chan s @ [\<lparr>topic = t, partition = p, offset = v\<rparr>]"
    and "offsets s' = offsets s"
    by (auto simp: Store_def split: if_splits)
  then have "pending s' = merge_offsets \<lparr>topic = t, partition = p, offset = v\<rparr> (pending s)"
    by (simp add: pending_def)
  with False show ?thesis by (simp add: offset_of_merge)
qed

lemma pending_loop_iteration:
  assumes "loop_iteration g c visit s = Returns s'"
  shows "pending s' = pending s"
proof (cases c)
  case TickerC
  with assms have "writeOffsetsLoop g visit s = Returns s'"
    by (simp add: loop_iteration_def writeOffsetsToDisk_def)
  then show ?thesis by (simp add: pending_def writeOffsetsLoop_frame)
next
  case InRecv
  show ?thesis
  proof (cases "in_chan s")
    case (Cons x rest)
    with assms InRecv have "s' = merge_progress x (s\<lparr>in_chan := rest\<rparr>)"
      by (simp add: loop_iteration_def)
    with Cons show ?thesis
      by (simp add: pending_def merge_progress_offsets merge_progress_in_chan)
  next
    case Nil
    with assms InRecv obtain s1 where f: "writeOffsetsLoop g visit s = Returns s1"
      and e: "s' = s1\<lparr>running := False\<rparr>"
      by (auto simp: loop_iteration_def writeOffsetsToDisk_def split: if_splits outcome.splits)
    then show ?thesis by (simp add: pending_def writeOffsetsLoop_frame)
  qed
qed

lemma pending_run:
  "list_all (on_partition t p) steps \<Longrightarrow> run g steps s = Returns s' \<Longrightarrow>
     offset_of (pending s') t p =
       (if stored_real steps = [] then offset_of (pending s) t p
        else Some (last (stored_real steps)))"
proof (induction steps arbitrary: s)
  case Nil
  then show ?case by simp
next
  case (Cons x xs)
  from Cons.prems(2) obtain s1 where i: "do_step g x s = Returns s1"
    and r: "run g xs s1 = Returns s'"
    by (auto split: outcome.splits)
  from Cons.prems(1) have xs: "list_all (on_partition t p) xs" and x: "on_partition t p x"
    by simp_all
  note IH = Cons.IH [OF xs r]
  show ?case
  proof (cases x)
    case (CallStore t' p' v)
    with x have tp: "t' = t" "p' = p" by simp_all
    from i CallStore tp have "Store s t p v = Returns s1" by simp
    from pending_Store [OF this] IH CallStore show ?thesis by simp
  next
    case (LoopStep c visit)
    with i have "loop_iteration g c visit s = Returns s1" by (auto split: if_splits)
    from pending_loop_iteration [OF this] IH LoopStep show ?thesis by simp
  next
    case (CallQuery u)
    with x show ?thesis by simp
  next
    case (CallClose sched)
    with x show ?thesis by simp
  qed
qed

lemma stored_real_is_real:
  "v \<in> set (stored_real steps) \<Longrightarrow> v \<noteq> OffsetNewest \<and> v \<noteq> OffsetOldest"
  by (induction steps rule: stored_real.induct) (auto split: if_splits)

lemma map_of_filter_keeps:
  "map_of al k = Some v \<Longrightarrow> P (k, v) \<Longrightarrow> map_of (filter P al) k = Some v"
  by (induction al) (auto split: if_splits)

lemma last_write_wins_when_flush_reaches:
  assumes steps: "list_all (on_partition t p) steps"
    and real: "stored_real steps \<noteq> []"
    and run: "run g steps s = Returns s1"
    and consumed: "in_chan s1 = []"
    and reach: "reaches (offsets s1) visit t"
    and flush: "writeOffsetsToDisk g visit s1 = Returns s2"
    and disk: "db s1 = Some d"
    and wf: "\<forall>v. write_fault d t v = None"
    and rf: "read_fault d t = None"
    and codec: "\<forall>m. Decode g (fst (Encode g m)) = Inr m"
  shows "\<exists>s3 m. Query g s2 t = Returns (s3, Inr m) \<and> map_of m p = Some (last (stored_real steps))"
proof -
  let ?v = "last (stored_real steps)"
  from pending_run [OF steps run] real consumed
  have "offset_of (offsets s1) t p = Some ?v" by (simp add: pending_def)
  then obtain offs where offs: "offsets s1 t = Some offs" and v: "map_of offs p = Some ?v"
    by (auto simp: offset_of_def split: option.splits)
  from real have "?v \<in> set (stored_real steps)" by simp
  then have "is_real (p, ?v)" by (simp add: is_real_def stored_real_is_real)
  with v have kept: "map_of (filter is_real offs) p = Some ?v" by (rule map_of_filter_keeps)
  then have ne: "filter is_real offs \<noteq> []" by auto
  from flush have "writeOffsetsLoop g visit s1 = Returns s2" by (simp add: writeOffsetsToDisk_def)
  from writeOffsetsLoop_reaches [OF reach offs ne disk wf this]
  obtain d' where d': "db s2 = Some d'"
    and f: "files d' t = Some (fst (Encode g (filter is_real offs)))"
    and r: "read_fault d' = read_fault d"
    by blast
  from d' f r rf codec
  have "Query g s2 t = Returns (s2\<lparr>offsets := (offsets s2)(t \<mapsto> filter is_real offs)\<rparr>,
                                 Inr (filter is_real offs))"
    by (simp add: Query_def diskv_Read_def)
  with kept show ?thesis by blast
qed

subsection \<open>What close() drains\<close>

lemma writeOffsetsLoop_flags:
  "writeOffsetsLoop g visit s = Returns s' \<Longrightarrow>
     in_closed s' = in_closed s \<and> running s' = running s
     \<and> writeErrors_closed s' = writeErrors_closed s"
proof (induction visit arbitrary: s)
  case Nil
  then show ?case by simp
next
  case (Cons t rest)
  show ?case
  proof (cases "offsets s t")
    case None
    with Cons show ?thesis by simp
  next
    case (Some offs)
    let ?w = "filter is_real offs"
    show ?thesis
    proof (cases "?w = []")
      case True
      with Cons.prems Some show ?thesis by simp
    next
      case False
      obtain s1 where s1: "(case snd (Encode g ?w) of None \<Rightarrow> Returns s
                | Some e \<Rightarrow> send_error (SerialiseFailed e t) s) = Returns s1"
        using Cons.prems Some False by (auto simp: Let_def split: outcome.splits)
      then have f1: "in_closed s1 = in_closed s \<and> running s1 = running s
          \<and> writeErrors_closed s1 = writeErrors_closed s"
        by (auto simp: send_error_def split: option.splits if_splits)
      obtain d where d: "db s1 = Some d"
        using Cons.prems Some False s1 by (auto simp: Let_def split: option.splits)
      let ?s2 = "s1\<lparr>db := Some (fst (diskv_Write d t (fst (Encode g ?w))))\<rparr>"
      obtain s3 where s3: "(case snd (diskv_Write d t (fst (Encode g ?w))) of None \<Rightarrow> Returns ?s2
                | Some e \<Rightarrow> send_error (WriteFailed e t ?w) ?s2) = Returns s3"
        and rest: "writeOffsetsLoop g rest s3 = Returns s'"
        using Cons.prems Some False s1 d by (auto simp: Let_def split: outcome.splits)
      from s3 have f3: "in_closed s3 = in_closed ?s2 \<and> running s3 = running ?s2
          \<and> writeErrors_closed s3 = writeErrors_closed ?s2"
        by (auto simp: send_error_def split: option.splits if_splits)
      from Cons.IH [OF rest] f1 f3 show ?thesis by simp
    qed
  qed
qed

lemma writeOffsetsLoop_returns:
  "db s = Some d \<Longrightarrow> \<not> writeErrors_closed s \<Longrightarrow>
     \<exists>s' d'. writeOffsetsLoop g visit s = Returns s' \<and> db s' = Some d'"
proof (induction visit arbitrary: s d)
  case Nil
  then show ?case by simp
next
  case (Cons t rest)
  show ?case
  proof (cases "offsets s t")
    case None
    with Cons show ?thesis by simp
  next
    case (Some offs)
    show ?thesis
    proof (cases "filter is_real offs = []")
      case True
      with Cons.prems Some show ?thesis by simp
    next
      case False
      let ?s' = "s\<lparr>writeErrors := writeErrors s
                  @ (case snd (Encode g (filter is_real offs)) of
                       None \<Rightarrow> [] | Some e \<Rightarrow> [SerialiseFailed e t])
                  @ (case snd (diskv_Write d t (fst (Encode g (filter is_real offs)))) of
                       None \<Rightarrow> [] | Some e \<Rightarrow> [WriteFailed e t (filter is_real offs)]),
                db := Some (fst (diskv_Write d t (fst (Encode g (filter is_real offs)))))\<rparr>"
      have "writeOffsetsLoop g (t # rest) s = writeOffsetsLoop g rest ?s'"
        using Some False Cons.prems by (rule writeOffsetsLoop_failure_continues)
      moreover have "\<exists>s' d'. writeOffsetsLoop g rest ?s' = Returns s' \<and> db s' = Some d'"
        using Cons.prems by (intro Cons.IH) simp_all
      ultimately show ?thesis by simp
    qed
  qed
qed

text \<open>
  When the loop has returned, the queue is empty and the cache holds all it held; and
  \<open>close()\<close> returns along the schedule that receives what the queue holds and once more.
\<close>

lemma loop_drained:
  "loop g sched s = Returns s' \<Longrightarrow> running s \<Longrightarrow> \<not> running s' \<Longrightarrow>
     in_chan s' = [] \<and> offsets s' = pending s \<and> in_closed s'
     \<and> writeErrors_closed s' = writeErrors_closed s"
proof (induction sched arbitrary: s)
  case Nil
  then show ?case by simp
next
  case (Cons cv sched)
  from Cons.prems(1,2) obtain s1 where i: "loop_iteration g (fst cv) (snd cv) s = Returns s1"
    and r: "loop g sched s1 = Returns s'"
    by (auto split: outcome.splits)
  have p: "pending s1 = pending s" using i by (rule pending_loop_iteration)
  show ?case
  proof (cases "running s1")
    case True
    have w: "writeErrors_closed s1 = writeErrors_closed s"
    proof (cases "fst cv")
      case TickerC
      with i show ?thesis
        by (auto simp: loop_iteration_def writeOffsetsToDisk_def dest: writeOffsetsLoop_flags)
    next
      case InRecv
      with i True show ?thesis
        by (auto simp: loop_iteration_def merge_progress_def split: list.splits if_splits outcome.splits)
    qed
    from Cons.IH [OF r True Cons.prems(3)] p w show ?thesis by simp
  next
    case False
    with r have e: "s' = s1" by (cases sched) simp_all
    have "fst cv = InRecv \<and> in_chan s = [] \<and> in_closed s"
    proof (cases "fst cv")
      case TickerC
      with i have "running s1 = running s"
        by (auto simp: loop_iteration_def writeOffsetsToDisk_def dest: writeOffsetsLoop_flags)
      with False Cons.prems(2) show ?thesis by simp
    next
      case InRecv
      with i False Cons.prems(2) show ?thesis
        by (auto simp: loop_iteration_def merge_progress_def split: list.splits if_splits)
    qed
    with i obtain s0 where f: "writeOffsetsLoop g (snd cv) s = Returns s0"
      and s1: "s1 = s0\<lparr>running := False\<rparr>"
      by (auto simp: loop_iteration_def writeOffsetsToDisk_def split: outcome.splits)
    from writeOffsetsLoop_frame [OF f] writeOffsetsLoop_flags [OF f] s1 e
      \<open>fst cv = InRecv \<and> in_chan s = [] \<and> in_closed s\<close>
    show ?thesis by (simp add: pending_def)
  qed
qed

lemma close_drains:
  assumes "close g sched (Some s) = Returns (Some s')" and "db s = Some d" and "running s"
  shows "in_chan s' = [] \<and> offsets s' = pending s \<and> in_closed s' \<and> \<not> running s'
         \<and> writeErrors_closed s'"
proof -
  from assms(1,2) obtain s1 where l: "loop g sched (s\<lparr>in_closed := True\<rparr>) = Returns s1"
    and nr: "\<not> running s1" and e: "s' = s1\<lparr>writeErrors_closed := True\<rparr>"
    by (auto simp: close_def split: if_splits outcome.splits)
  from loop_drained [OF l _ nr] assms(3)
  have "in_chan s1 = [] \<and> offsets s1 = pending (s\<lparr>in_closed := True\<rparr>) \<and> in_closed s1" by simp
  with e nr show ?thesis by (simp add: pending_def)
qed

lemma loop_terminates:
  "running s \<Longrightarrow> in_closed s \<Longrightarrow> db s = Some d \<Longrightarrow> \<not> writeErrors_closed s \<Longrightarrow>
     \<exists>s'. loop g (replicate (length (in_chan s)) (InRecv, v) @ [(InRecv, visit)]) s = Returns s'
          \<and> \<not> running s' \<and> \<not> writeErrors_closed s'"
proof (induction "in_chan s" arbitrary: s)
  case Nil
  from writeOffsetsLoop_returns [OF Nil.prems(3,4)]
  obtain s0 where f: "writeOffsetsLoop g visit s = Returns s0" by blast
  from writeOffsetsLoop_flags [OF f] Nil.prems(4)
  have "\<not> writeErrors_closed s0" by simp
  with f Nil.hyps [symmetric] Nil.prems show ?case
    by (simp add: loop_iteration_def writeOffsetsToDisk_def)
next
  case (Cons x rest)
  let ?s1 = "merge_progress x (s\<lparr>in_chan := rest\<rparr>)"
  have i: "loop_iteration g InRecv v s = Returns ?s1"
    using Cons.hyps(2) [symmetric] by (simp add: loop_iteration_def)
  have "rest = in_chan ?s1" by (simp add: merge_progress_def)
  from Cons.hyps(1) [OF this] Cons.prems
  obtain s' where "loop g (replicate (length (in_chan ?s1)) (InRecv, v) @ [(InRecv, visit)]) ?s1
      = Returns s'" and "\<not> running s'" and "\<not> writeErrors_closed s'"
    by (auto simp: merge_progress_def)
  with i Cons.hyps(2) [symmetric] Cons.prems(1) show ?case
    by (simp add: merge_progress_def)
qed

lemma close_returns:
  assumes "running s" and "\<not> in_closed s" and "db s = Some d" and "\<not> writeErrors_closed s"
  shows "\<exists>s'. close g (replicate (length (in_chan s)) (InRecv, v) @ [(InRecv, visit)]) (Some s)
               = Returns (Some s')"
proof -
  let ?s = "s\<lparr>in_closed := True\<rparr>"
  from loop_terminates [of ?s d g v visit] assms
  obtain s1 where "loop g (replicate (length (in_chan s)) (InRecv, v) @ [(InRecv, visit)]) ?s
      = Returns s1" and "\<not> running s1" and "\<not> writeErrors_closed s1"
    by auto
  with assms show ?thesis by (simp add: close_def)
qed

subsection \<open>The serializer of the examples decodes what it encodes\<close>

lemma un32_be32: "un32 (be32 w) = w"
proof (rule bit_word_eqI)
  fix n :: nat
  assume "n < LENGTH(32)"
  then have "n < 8 \<or> (8 \<le> n \<and> n < 16) \<or> (16 \<le> n \<and> n < 24) \<or> (24 \<le> n \<and> n < 32)"
    by auto
  then show "bit (un32 (be32 w)) n = bit w n"
    by (elim disjE) (auto simp add: un32_def be32_def bit_simps)
qed

lemma un64_be64: "un64 (be64 w) = w"
proof (rule bit_word_eqI)
  fix n :: nat
  assume "n < LENGTH(64)"
  then have "n < 8 \<or> (8 \<le> n \<and> n < 16) \<or> (16 \<le> n \<and> n < 24) \<or> (24 \<le> n \<and> n < 32)
     \<or> (32 \<le> n \<and> n < 40) \<or> (40 \<le> n \<and> n < 48) \<or> (48 \<le> n \<and> n < 56)
     \<or> (56 \<le> n \<and> n < 64)"
    by auto
  then show "bit (un64 (be64 w)) n = bit w n"
    by (elim disjE) (auto simp add: un64_def be64_def bit_simps)
qed

lemma length_be32: "length (be32 w) = 4"
  by (simp add: be32_def)

lemma length_be64: "length (be64 w) = 8"
  by (simp add: be64_def)

lemma example_decode_Suc:
  "12 \<le> length bs \<Longrightarrow>
     example_decode (Suc k) bs =
       (case example_decode k (drop 12 bs) of
          Inl e \<Rightarrow> Inl e
        | Inr m \<Rightarrow> Inr ((un32 (take 4 bs), un64 (take 8 (drop 4 bs))) # m))"
  by (cases bs) (auto split: sum.splits)

lemma example_decode_encode:
  "length (concat (map (\<lambda>po. be32 (fst po) @ be64 (snd po)) m)) \<le> n \<Longrightarrow>
     example_decode n (concat (map (\<lambda>po. be32 (fst po) @ be64 (snd po)) m)) = Inr m"
proof (induction m arbitrary: n)
  case Nil
  show ?case by simp
next
  case (Cons po m)
  let ?rest = "concat (map (\<lambda>po. be32 (fst po) @ be64 (snd po)) m)"
  let ?bs = "be32 (fst po) @ be64 (snd po) @ ?rest"
  from Cons.prems obtain k where n: "n = Suc k" and k: "length ?rest \<le> k"
    by (cases n) (simp_all add: length_be32 length_be64)
  have "12 \<le> length ?bs" by (simp add: length_be32 length_be64)
  then have "example_decode (Suc k) ?bs =
      (case example_decode k (drop 12 ?bs) of
         Inl e \<Rightarrow> Inl e
       | Inr m' \<Rightarrow> Inr ((un32 (take 4 ?bs), un64 (take 8 (drop 4 ?bs))) # m'))"
    by (rule example_decode_Suc)
  moreover have "drop 12 ?bs = ?rest" by (simp add: length_be32 length_be64)
  moreover have "take 4 ?bs = be32 (fst po)" by (simp add: length_be32)
  moreover have "take 8 (drop 4 ?bs) = be64 (snd po)" by (simp add: length_be32 length_be64)
  ultimately show ?case
    using Cons.IH [OF k] n by (simp add: un32_be32 un64_be64)
qed

lemma example_gob_round_trip: "Decode example_gob (fst (Encode example_gob m)) = Inr m"
  by (simp add: example_gob_def example_decode_encode)

text \<open>
  The scenario of one partition on a new store: 10 is stored and received, the sentinel
  is dropped by Store, 11 is stored and received; after a flush, Query gives 11.
\<close>

lemma last_write_wins_example:
  "\<exists>s1 s2 s3 m.
     run example_gob
       [CallStore ''orders'' 0 10, LoopStep InRecv [], CallStore ''orders'' 0 OffsetNewest,
        CallStore ''orders'' 0 11, LoopStep InRecv []]
       (start (newLocalOffsetStore empty_disk)) = Returns s1
     \<and> writeOffsetsToDisk example_gob [''orders''] s1 = Returns s2
     \<and> Query example_gob s2 ''orders'' = Returns (s3, Inr m)
     \<and> map_of m 0 = Some 11"
proof -
  let ?steps = "[CallStore ''orders'' 0 10, LoopStep InRecv [],
        CallStore ''orders'' 0 OffsetNewest, CallStore ''orders'' 0 11, LoopStep InRecv []]"
  let ?s1 = "(start (newLocalOffsetStore empty_disk))\<lparr>offsets := [''orders'' \<mapsto> [(0, 11)]]\<rparr>"
  let ?s2 = "?s1\<lparr>db := Some (empty_disk\<lparr>files :=
               [''orders'' \<mapsto> fst (Encode example_gob [(0, 11)])]\<rparr>)\<rparr>"
  have r: "run example_gob ?steps (start (newLocalOffsetStore empty_disk)) = Returns ?s1"
    by (simp add: store_defs)
  have f: "writeOffsetsToDisk example_gob [''orders''] ?s1 = Returns ?s2"
    by (simp add: store_defs example_gob_def)
  have "\<exists>s3 m. Query example_gob ?s2 ''orders'' = Returns (s3, Inr m)
          \<and> map_of m 0 = Some (last (stored_real ?steps))"
  proof (rule last_write_wins_when_flush_reaches [OF _ _ r _ _ f])
    show "list_all (on_partition ''orders'' 0) ?steps" by simp
    show "stored_real ?steps \<noteq> []" by (simp add: OffsetNewest_def OffsetOldest_def)
    show "in_chan ?s1 = []" by (simp add: store_defs)
    show "reaches (offsets ?s1) [''orders''] ''orders''" by simp
    show "db ?s1 = Some empty_disk" by (simp add: store_defs)
    show "\<forall>v. write_fault empty_disk ''orders'' v = None" by (simp add: empty_disk_def)
    show "read_fault empty_disk ''orders'' = None" by (simp add: empty_disk_def)
    show "\<forall>m. Decode example_gob (fst (Encode example_gob m)) = Inr m"
      by (simp add: example_gob_round_trip)
  qed
  then have "\<exists>s3 m. Query example_gob ?s2 ''orders'' = Returns (s3, Inr m) \<and> map_of m 0 = Some 11"
    by (simp add: OffsetNewest_def OffsetOldest_def)
  with r f show ?thesis by blast
qed

subsection \<open>The claims on the offset store\<close>

text \<open>
  C1. During a flush, a failure to serialize or to write one topic's record is sent on
  the error channel and the flush continues; a topic whose mapping is empty once the
  sentinels are filtered out is skipped, and the flush still proceeds for all other
  topics. The code does not do the last part: at such a topic \<open>writeOffsetsToDisk\<close>
  returns. With the cache \<open>{a: {}, b: {0: 5}}\<close>, a visit of \<open>a\<close> before \<open>b\<close> leaves the
  store as it was, the record of \<open>b\<close> unwritten; a visit of \<open>b\<close> before \<open>a\<close> writes it.
  The first part holds (\<open>writeOffsetsLoop_failure_continues\<close>).
\<close>

theorem flush_returns_at_empty_topic:
  "writeOffsetsToDisk g [''a'', ''b'']
     ((newLocalOffsetStore empty_disk)\<lparr>offsets := [''a'' \<mapsto> [], ''b'' \<mapsto> [(0, 5)]]\<rparr>)
   = Returns ((newLocalOffsetStore empty_disk)\<lparr>offsets := [''a'' \<mapsto> [], ''b'' \<mapsto> [(0, 5)]]\<rparr>)
   \<and> (\<exists>s'. writeOffsetsToDisk g [''b'', ''a'']
          ((newLocalOffsetStore empty_disk)\<lparr>offsets := [''a'' \<mapsto> [], ''b'' \<mapsto> [(0, 5)]]\<rparr>)
          = Returns s'
        \<and> map_option (\<lambda>d. files d ''b'') (db s') = Some (Some (fst (Encode g [(0, 5)]))))"
  by (simp add: store_defs split: option.split)

text \<open>
  C2. After the Store calls on one partition that the loop has consumed and a flush, a
  Query of the topic returns the last real offset stored for the partition. The code
  breaks it where the flush returns early: on a new store, \<open>Query(a)\<close> finds no record and
  puts an empty mapping for \<open>a\<close> in the cache; \<open>Store(b, 0, 5)\<close> is consumed; the flush
  visits \<open>a\<close> first and returns; \<open>Query(b)\<close> then returns the empty mapping. Where the
  flush comes to the topic the property holds (\<open>last_write_wins_when_flush_reaches\<close>).
\<close>

theorem query_after_flush_misses_offset:
  "\<exists>s1 s2. run g [CallQuery ''a'', CallStore ''b'' 0 5, LoopStep InRecv [],
                   LoopStep TickerC [''a'', ''b'']]
              (start (newLocalOffsetStore empty_disk)) = Returns s1
     \<and> in_chan s1 = []
     \<and> Query g s1 ''b'' = Returns (s2, Inr [])"
  by (simp add: store_defs)

text \<open>
  C3. No record on the disk ever holds a sentinel offset, whatever the calls to Store:
  Store does nothing for the two sentinels, and whatever the users and the loop do, in
  any order, to a store whose records are buffers the serializer left for mappings
  without sentinels, the records of the store they reach are such buffers too.
\<close>

theorem sentinels_never_persisted:
  "Store s t p OffsetOldest = Returns s \<and> Store s t p OffsetNewest = Returns s \<and>
   (persisted_clean g s \<longrightarrow> run g steps s = Returns s' \<longrightarrow> persisted_clean g s')"
  by (auto simp: Store_def dest: run_clean)

theorem sentinels_never_persisted_witness:
  "persisted_clean example_gob (start (newLocalOffsetStore empty_disk))
   \<and> run example_gob
       [CallStore ''orders'' 0 OffsetOldest, CallStore ''orders'' 0 7,
        CallStore ''orders'' 1 OffsetNewest, LoopStep InRecv [],
        LoopStep TickerC [''orders'']]
       (start (newLocalOffsetStore empty_disk))
     = Returns
        \<lparr>db = Some (empty_disk\<lparr>files := [''orders'' \<mapsto> [0, 0, 0, 0, 0, 0, 0, 0, 0, 0, 0, 7]]\<rparr>),
         writeErrors = [], writeErrors_closed = False, in_chan = [], in_closed = False,
         running = True, offsets = [''orders'' \<mapsto> [(0, 7)]]\<rparr>
   \<and> persisted_clean example_gob
        \<lparr>db = Some (empty_disk\<lparr>files := [''orders'' \<mapsto> [0, 0, 0, 0, 0, 0, 0, 0, 0, 0, 0, 7]]\<rparr>),
         writeErrors = [], writeErrors_closed = False, in_chan = [], in_closed = False,
         running = True, offsets = [''orders'' \<mapsto> [(0, 7)]]\<rparr>"
proof -
  let ?s = "start (newLocalOffsetStore empty_disk)"
  let ?steps = "[CallStore ''orders'' 0 OffsetOldest, CallStore ''orders'' 0 7,
        CallStore ''orders'' 1 OffsetNewest, LoopStep InRecv [],
        LoopStep TickerC [''orders'']]"
  let ?s' = "\<lparr>db = Some (empty_disk\<lparr>files := [''orders'' \<mapsto> [0, 0, 0, 0, 0, 0, 0, 0, 0, 0, 0, 7]]\<rparr>),
         writeErrors = [], writeErrors_closed = False, in_chan = [], in_closed = False,
         running = True, offsets = [''orders'' \<mapsto> [(0, 7 :: offset)]]\<rparr>"
  have h1: "persisted_clean example_gob ?s"
    by (simp add: persisted_clean_def store_defs)
  have h2: "run example_gob ?steps ?s = Returns ?s'"
    by (simp add: store_defs example_gob_def be32_def be64_def)
  from sentinels_never_persisted [of ?s "''orders''" 0 example_gob ?steps ?s'] h1 h2
  have "persisted_clean example_gob ?s'" by blast
  with h1 h2 show ?thesis by blast
qed

text \<open>
  C4. \<open>close()\<close> closes the input queue; the loop drains the updates enqueued, flushes
  all dirty topics once more and returns, and the error channel is closed; so a Query
  after \<open>close()\<close> sees every update enqueued before it. The code loses an update where
  the last flush returns early: after \<open>Query(a)\<close> and \<open>Query(b)\<close> on a new store and
  \<open>Store(b, 0, 5)\<close>, \<open>close()\<close> has the loop receive the update and, the channel closed,
  flush; the flush visits \<open>a\<close> first and returns; the loop returns, the error channel is
  closed, no record of \<open>b\<close> is on the disk, and \<open>Query(b)\<close> returns the empty mapping.
  The rest holds: \<open>close()\<close> returns (\<open>close_returns\<close>), and when it has returned the
  queue is drained into the cache, the loop has returned and the error channel is closed
  (\<open>close_drains\<close>).
\<close>

theorem close_loses_enqueued_update:
  "\<exists>s2 s3. run g [CallQuery ''a'', CallQuery ''b'', CallStore ''b'' 0 5,
                   CallClose [(InRecv, []), (InRecv, [''a'', ''b''])]]
              (start (newLocalOffsetStore empty_disk)) = Returns s2
     \<and> in_chan s2 = [] \<and> in_closed s2 \<and> \<not> running s2 \<and> writeErrors_closed s2
     \<and> map_option (\<lambda>d. files d ''b'') (db s2) = Some None
     \<and> Query g s2 ''b'' = Returns (s3, Inr [])"
  by (simp add: store_defs)

text \<open>
  C9. On a store with a disk, a Query of a topic without a record returns the empty
  mapping and no error, and puts an empty mapping for the topic in the cache; any other
  failure of the read is returned as it is, and a failure to deserialize is returned
  wrapped; in both cases the cache is left as it was.
\<close>

theorem Query_missing_record_and_failures:
  assumes "db s = Some d"
  shows "(files d t = None \<and> read_fault d t = None \<longrightarrow>
            Query g s t = Returns (s\<lparr>offsets := (offsets s)(t \<mapsto> [])\<rparr>, Inr []))
       \<and> (diskv_Read d t = Inl e \<and> \<not> IsNotExist e \<longrightarrow> Query g s t = Returns (s, Inl e))
       \<and> (diskv_Read d t = Inr val \<and> Decode g val = Inl e \<longrightarrow>
            Query g s t = Returns (s, Inl (DeserializeFailed e t)))"
  using assms by (simp add: Query_def diskv_Read_def)

theorem Query_missing_record_and_failures_witness:
  "Query example_gob (newLocalOffsetStore empty_disk) ''orders''
     = Returns ((newLocalOffsetStore empty_disk)\<lparr>offsets := [''orders'' \<mapsto> []]\<rparr>, Inr [])
   \<and> Query example_gob
        (newLocalOffsetStore (empty_disk\<lparr>read_fault := (\<lambda>k. Some (External ''permission denied''))\<rparr>))
        ''orders''
     = Returns (newLocalOffsetStore (empty_disk\<lparr>read_fault := (\<lambda>k. Some (External ''permission denied''))\<rparr>),
                Inl (External ''permission denied''))
   \<and> Query example_gob (newLocalOffsetStore (empty_disk\<lparr>files := [''orders'' \<mapsto> [1]]\<rparr>)) ''orders''
     = Returns (newLocalOffsetStore (empty_disk\<lparr>files := [''orders'' \<mapsto> [1]]\<rparr>),
                Inl (DeserializeFailed (External ''unexpected EOF'') ''orders''))"
proof -
  let ?d2 = "empty_disk\<lparr>read_fault := (\<lambda>k. Some (External ''permission denied''))\<rparr>"
  let ?d3 = "empty_disk\<lparr>files := [''orders'' \<mapsto> [1]]\<rparr>"
  have a: "db (newLocalOffsetStore d) = Some d" for d
    by (simp add: newLocalOffsetStore_def)
  have m: "files empty_disk ''orders'' = None \<and> read_fault empty_disk ''orders'' = None"
    by (simp add: empty_disk_def)
  have r: "diskv_Read ?d2 ''orders'' = Inl (External ''permission denied'')
           \<and> \<not> IsNotExist (External ''permission denied'')"
    by (simp add: diskv_Read_def empty_disk_def)
  have u: "diskv_Read ?d3 ''orders'' = Inr [1]
           \<and> Decode example_gob [1] = Inl (External ''unexpected EOF'')"
    by (simp add: diskv_Read_def empty_disk_def example_gob_def)
  from Query_missing_record_and_failures [where s = "newLocalOffsetStore empty_disk"
      and d = empty_disk and t = "''orders''" and g = example_gob] a m
  have 1: "Query example_gob (newLocalOffsetStore empty_disk) ''orders''
     = Returns ((newLocalOffsetStore empty_disk)\<lparr>offsets := [''orders'' \<mapsto> []]\<rparr>, Inr [])"
    by (simp add: newLocalOffsetStore_def)
  from Query_missing_record_and_failures [where s = "newLocalOffsetStore ?d2" and d = ?d2
      and t = "''orders''" and g = example_gob and e = "External ''permission denied''"] a r
  have 2: "Query example_gob (newLocalOffsetStore ?d2) ''orders''
     = Returns (newLocalOffsetStore ?d2, Inl (External ''permission denied''))"
    by blast
  from Query_missing_record_and_failures [where s = "newLocalOffsetStore ?d3" and d = ?d3
      and t = "''orders''" and g = example_gob and val = "[1]"
      and e = "External ''unexpected EOF''"] a u
  have 3: "Query example_gob (newLocalOffsetStore ?d3) ''orders''
     = Returns (newLocalOffsetStore ?d3, Inl (DeserializeFailed (External ''unexpected EOF'') ''orders''))"
    by blast
  from 1 2 3 show ?thesis by blast
qed

text \<open>
  C10. \<open>close()\<close> on a nil pointer, or on a store whose disk store is nil, returns at
  once with the store as it was: no channel is closed, nothing is flushed, and the
  goroutine is not waited for (the result is the same along every schedule).
\<close>

theorem close_nil_is_noop:
  "close g sched None = Returns None \<and>
   (db s = None \<longrightarrow> close g sched (Some s) = Returns (Some s))"
  by (simp add: close_def)

theorem close_nil_is_noop_witness:
  "db ((start (newLocalOffsetStore empty_disk))\<lparr>db := None\<rparr>) = None
   \<and> close example_gob [(InRecv, [])] (Some ((start (newLocalOffsetStore empty_disk))\<lparr>db := None\<rparr>))
       = Returns (Some ((start (newLocalOffsetStore empty_disk))\<lparr>db := None\<rparr>))
   \<and> close example_gob [(InRecv, [])] None = Returns None"
  using close_nil_is_noop [of example_gob "[(InRecv, [])]"
      "(start (newLocalOffsetStore empty_disk))\<lparr>db := None\<rparr>"]
  by simp

section \<open>Properties of the command\<close>

lemma fst_emit: "fst (emit es r) = es @ fst r"
  by (simp add: emit_def)

lemma snd_emit: "snd (emit es r) = snd r"
  by (simp add: emit_def)

lemma consume_cancelled_silent: "fst (consume tm c se rv True tr) = []"
proof (induction tr)
  case Nil
  show ?case by simp
next
  case (Cons a tr)
  then show ?case by (cases a) simp_all
qed

lemma consume_reads_all:
  "EventsClosed \<notin> set tr \<Longrightarrow> snd (consume tm c se rv b tr) = (False, [])"
  by (induction tm c se rv b tr rule: consume.induct) (auto simp: snd_emit split: sum.splits)

lemma consume_returns_at_close:
  "EventsClosed \<notin> set tr \<Longrightarrow>
     consume tm c se rv True (tr @ EventsClosed # rest) = ([], True, rest)"
proof (induction tr)
  case Nil
  show ?case by simp
next
  case (Cons a tr)
  then show ?case by (cases a) simp_all
qed

lemma consume_first_done:
  "CtxDone \<notin> set pre \<Longrightarrow> EventsClosed \<notin> set pre \<Longrightarrow>
     consume tm c se rv False (pre @ CtxDone # post) =
       (fst (consume tm c se rv False pre) @ [StopConsumer], snd (consume tm c se rv True post))"
proof (induction pre)
  case Nil
  show ?case by (simp add: emit_def consume_cancelled_silent)
next
  case (Cons a pre)
  then show ?case by (cases a) (simp_all add: emit_def split: sum.splits)
qed

lemma consume_stops_once:
  "count_list (fst (consume tm c se rv b tr)) StopConsumer \<le> 1"
  by (induction tm c se rv b tr rule: consume.induct)
     (auto simp: fst_emit consume_cancelled_silent split: sum.splits)

text \<open>
  C5. Once the loop has observed the cancellation it has no effect any more: it writes
  no output, commits no offset and does not stop the consumer again. It still takes
  everything the select yields until the channel of events is closed, and returns
  then. The first observation is where \<open>stopConsumer()\<close> is called, once, and no run
  calls it twice.
\<close>

theorem cancelled_loop_drains:
  "fst (consume tm c se rv True tr) = []
   \<and> (EventsClosed \<notin> set tr \<longrightarrow>
        snd (consume tm c se rv True tr) = (False, [])
        \<and> consume tm c se rv True (tr @ EventsClosed # rest) = ([], True, rest))
   \<and> (CtxDone \<notin> set pre \<and> EventsClosed \<notin> set pre \<longrightarrow>
        consume tm c se rv False (pre @ CtxDone # post) =
          (fst (consume tm c se rv False pre) @ [StopConsumer],
           snd (consume tm c se rv True post)))
   \<and> count_list (fst (consume tm c se rv b tr)) StopConsumer \<le> 1"
  using consume_stops_once [of tm c se rv b tr]
  by (simp add: consume_cancelled_silent consume_reads_all consume_returns_at_close
      consume_first_done)

theorem cancelled_loop_drains_witness:
  "EventsClosed \<notin> set [Received (example_event 2 [111, 107]), CtxDone]
   \<and> CtxDone \<notin> set [Received (example_event 1 [111, 107])]
   \<and> EventsClosed \<notin> set [Received (example_event 1 [111, 107])]
   \<and> consume [''orders'' \<mapsto> ''Order''] example_codec None False False
        ([Received (example_event 1 [111, 107])] @ CtxDone
           # ([Received (example_event 2 [111, 107]), CtxDone] @ EventsClosed
               # [Received (example_event 3 [111, 107])]))
      = ([WriteEvent ''orders'' (Some [111, 107]), StoreOffset (example_event 1 [111, 107]),
          StopConsumer],
         True, [Received (example_event 3 [111, 107])])"
proof -
  let ?e1 = "example_event 1 [111, 107]"
  let ?e2 = "example_event 2 [111, 107]"
  let ?e3 = "example_event 3 [111, 107]"
  let ?tm = "[''orders'' \<mapsto> ''Order'']"
  have n1: "EventsClosed \<notin> set [Received ?e2, CtxDone]" by simp
  have n2: "CtxDone \<notin> set [Received ?e1] \<and> EventsClosed \<notin> set [Received ?e1]" by simp
  have p: "fst (consume ?tm example_codec None False False [Received ?e1])
             = [WriteEvent ''orders'' (Some [111, 107]), StoreOffset ?e1]"
    by (simp add: emit_def process_def lookup_tm_def example_codec_def example_event_def)
  note t = cancelled_loop_drains [of ?tm example_codec None False "[Received ?e2, CtxDone]"
      "[Received ?e3]" "[Received ?e1]"
      "[Received ?e2, CtxDone] @ EventsClosed # [Received ?e3]" False]
  from t n1 have "consume ?tm example_codec None False True
      ([Received ?e2, CtxDone] @ EventsClosed # [Received ?e3]) = ([], True, [Received ?e3])"
    by blast
  moreover from t n2 have "consume ?tm example_codec None False False
      ([Received ?e1] @ CtxDone # ([Received ?e2, CtxDone] @ EventsClosed # [Received ?e3]))
      = (fst (consume ?tm example_codec None False False [Received ?e1]) @ [StopConsumer],
         snd (consume ?tm example_codec None False True
                ([Received ?e2, CtxDone] @ EventsClosed # [Received ?e3])))"
    by blast
  ultimately have "consume ?tm example_codec None False False
      ([Received ?e1] @ CtxDone # ([Received ?e2, CtxDone] @ EventsClosed # [Received ?e3]))
      = ([WriteEvent ''orders'' (Some [111, 107]), StoreOffset ?e1, StopConsumer],
         True, [Received ?e3])"
    using p by simp
  with n1 n2 show ?thesis by blast
qed

text \<open>
  C6. For an event that decodes to \<open>output\<close>: with a pattern and \<open>reverse = false\<close>,
  \<open>process\<close> returns the output when the pattern matches it and nothing otherwise; with a
  pattern and \<open>reverse = true\<close>, the output when the pattern does not match it and nothing
  otherwise; without a pattern, the output always.
\<close>

theorem process_filter_reverse:
  assumes "loader_Get c messageType = Inr msg"
    and "proto_Unmarshal c (Value ev) msg = Inr msg'"
    and "marshaller_Marshal c msg' (Timestamp ev) = Inr output"
  shows "process messageType c ev (Some re) False = Inr (if re output then Some output else None)
       \<and> process messageType c ev (Some re) True = Inr (if re output then None else Some output)
       \<and> process messageType c ev None reverse = Inr (Some output)"
  using assms by (simp add: process_def)

theorem process_filter_reverse_witness:
  "process ''Status'' example_codec (example_event 1 [115, 116, 97, 116, 117, 115, 61, 111, 107])
     (Some (containing [111, 107])) False
     = Inr (Some [115, 116, 97, 116, 117, 115, 61, 111, 107])
   \<and> process ''Status'' example_codec (example_event 1 [115, 116, 97, 116, 117, 115, 61, 111, 107])
     (Some (containing [111, 107])) True
     = Inr None
   \<and> process ''Status'' example_codec (example_event 1 [115, 116, 97, 116, 117, 115, 61, 111, 107])
     None True
     = Inr (Some [115, 116, 97, 116, 117, 115, 61, 111, 107])"
proof -
  let ?v = "[115, 116, 97, 116, 117, 115, 61, 111, 107] :: bytes"
  have a: "loader_Get example_codec ''Status'' = Inr []"
    by (simp add: example_codec_def)
  have b: "proto_Unmarshal example_codec (Value (example_event 1 ?v)) [] = Inr ?v"
    by (simp add: example_codec_def example_event_def)
  have c: "marshaller_Marshal example_codec ?v (Timestamp (example_event 1 ?v)) = Inr ?v"
    by (simp add: example_codec_def)
  have m: "containing [111, 107] ?v" by simp
  from process_filter_reverse [OF a b c, of "containing [111, 107]" True] m
  show ?thesis by simp
qed

text \<open>
  C7. In the running loop, an event that decodes and that the filter drops is passed to
  \<open>WriteEvent\<close> with no output and its offset is committed with \<open>StoreOffset\<close>; an event
  for which \<open>process\<close> fails is not committed, and the failure is logged with the offset,
  the partition and the topic of the event; \<open>process\<close> fails exactly when the message
  type is not found or the value does not unmarshal or the message does not marshal. In
  both cases the loop goes on with what follows, still running.
\<close>

theorem filtered_committed_failed_logged:
  "(loader_Get c (lookup_tm tm (Topic ev)) = Inr msg
      \<and> proto_Unmarshal c (Value ev) msg = Inr msg'
      \<and> marshaller_Marshal c msg' (Timestamp ev) = Inr output
      \<and> re output = rv \<longrightarrow>
      consume tm c (Some re) rv False (Received ev # tr) =
        emit [WriteEvent (Topic ev) None, StoreOffset ev] (consume tm c (Some re) rv False tr))
   \<and> (process (lookup_tm tm (Topic ev)) c ev se rv = Inl err \<longrightarrow>
      consume tm c se rv False (Received ev # tr) =
        emit [LogFailed (Offset ev) (Partition ev) (Topic ev) err] (consume tm c se rv False tr))
   \<and> ((process (lookup_tm tm (Topic ev)) c ev se rv = Inl err) =
       (loader_Get c (lookup_tm tm (Topic ev)) = Inl err
        \<or> (\<exists>m. loader_Get c (lookup_tm tm (Topic ev)) = Inr m
             \<and> (proto_Unmarshal c (Value ev) m = Inl err
                \<or> (\<exists>m'. proto_Unmarshal c (Value ev) m = Inr m'
                      \<and> marshaller_Marshal c m' (Timestamp ev) = Inl err)))))"
  by (auto simp: process_def split: sum.splits option.splits)

theorem filtered_committed_failed_logged_witness:
  "consume [''orders'' \<mapsto> ''Order''] example_codec (Some (containing [111, 107])) True False
     [Received (example_event 4 [111, 107]), Received (example_event 5 []),
      Received (example_event 6 [110, 111])]
   = ([WriteEvent ''orders'' None, StoreOffset (example_event 4 [111, 107]),
       LogFailed 5 0 ''orders'' (External ''empty value''),
       WriteEvent ''orders'' (Some [110, 111]), StoreOffset (example_event 6 [110, 111])],
      False, [])"
proof -
  let ?tm = "[''orders'' \<mapsto> ''Order'']"
  let ?re = "containing [111, 107]"
  let ?tail = "[Received (example_event 5 []), Received (example_event 6 [110, 111])]"
  have a: "loader_Get example_codec (lookup_tm ?tm (Topic (example_event 4 [111, 107]))) = Inr []
    \<and> proto_Unmarshal example_codec (Value (example_event 4 [111, 107])) [] = Inr [111, 107]
    \<and> marshaller_Marshal example_codec [111, 107] (Timestamp (example_event 4 [111, 107]))
        = Inr [111, 107]
    \<and> ?re [111, 107] = True"
    by (simp add: example_codec_def example_event_def lookup_tm_def)
  have b: "process (lookup_tm ?tm (Topic (example_event 5 []))) example_codec (example_event 5 [])
             (Some ?re) True = Inl (External ''empty value'')"
    by (simp add: process_def example_codec_def example_event_def lookup_tm_def)
  have r: "consume ?tm example_codec (Some ?re) True False [Received (example_event 6 [110, 111])]
     = ([WriteEvent ''orders'' (Some [110, 111]), StoreOffset (example_event 6 [110, 111])],
        False, [])"
    by (simp add: emit_def process_def example_codec_def example_event_def lookup_tm_def)
  from filtered_committed_failed_logged [of example_codec ?tm "example_event 4 [111, 107]"
      "[]" "[111, 107]" "[111, 107]" ?re True ?tail] a
  have 1: "consume ?tm example_codec (Some ?re) True False
             (Received (example_event 4 [111, 107]) # ?tail) =
           emit [WriteEvent (Topic (example_event 4 [111, 107])) None,
                 StoreOffset (example_event 4 [111, 107])]
             (consume ?tm example_codec (Some ?re) True False ?tail)"
    by blast
  from filtered_committed_failed_logged [of example_codec ?tm "example_event 5 []"
      _ _ _ _ True "[Received (example_event 6 [110, 111])]" "Some ?re"
      "External ''empty value''"] b
  have 2: "consume ?tm example_codec (Some ?re) True False ?tail =
           emit [LogFailed (Offset (example_event 5 [])) (Partition (example_event 5 []))
                   (Topic (example_event 5 [])) (External ''empty value'')]
             (consume ?tm example_codec (Some ?re) True False
                [Received (example_event 6 [110, 111])])"
    by blast
  show ?thesis
    unfolding 1 2 r by (simp add: emit_def example_event_def)
qed

text \<open>
  C8. The Checkpoint that \<open>getCheckpoint\<close> builds has at most one of the explicit offset
  and the explicit timestamp; when the offset flag is set, the offset is applied and the
  timestamp is not, whether the time flag is set or not. \<open>getCheckpoint\<close> has no failure:
  it gives a Checkpoint for every rewind choice and every pair of flags.
\<close>

theorem getCheckpoint_offset_wins:
  "(explicitOffset (getCheckpoint rewind timeCheckpoint offsetCheckpoint) = None
      \<or> explicitTimestamp (getCheckpoint rewind timeCheckpoint offsetCheckpoint) = None)
   \<and> (IsSet offsetCheckpoint \<longrightarrow>
        getCheckpoint rewind timeCheckpoint offsetCheckpoint
          = SetOffset (Get offsetCheckpoint) (NewCheckpoint rewind)
        \<and> explicitOffset (getCheckpoint rewind timeCheckpoint offsetCheckpoint)
            = Some (Get offsetCheckpoint)
        \<and> explicitTimestamp (getCheckpoint rewind timeCheckpoint offsetCheckpoint) = None)
   \<and> (\<not> IsSet offsetCheckpoint \<and> IsSet timeCheckpoint \<longrightarrow>
        getCheckpoint rewind timeCheckpoint offsetCheckpoint
          = SetTimeOffset (Get timeCheckpoint) (NewCheckpoint rewind))
   \<and> (\<not> IsSet offsetCheckpoint \<and> \<not> IsSet timeCheckpoint \<longrightarrow>
        getCheckpoint rewind timeCheckpoint offsetCheckpoint = NewCheckpoint rewind)"
  by (simp add: getCheckpoint_def NewCheckpoint_def SetOffset_def SetTimeOffset_def Let_def)

theorem getCheckpoint_offset_wins_witness:
  "IsSet \<lparr>IsSet = True, Get = 42 :: offset\<rparr>
   \<and> getCheckpoint False \<lparr>IsSet = True, Get = 1700000000\<rparr> \<lparr>IsSet = True, Get = 42\<rparr>
       = \<lparr>rewindToOldest = False, explicitOffset = Some 42, explicitTimestamp = None\<rparr>
   \<and> getCheckpoint True \<lparr>IsSet = True, Get = 1700000000\<rparr> \<lparr>IsSet = False, Get = 0\<rparr>
       = \<lparr>rewindToOldest = True, explicitOffset = None, explicitTimestamp = Some 1700000000\<rparr>
   \<and> getCheckpoint True \<lparr>IsSet = False, Get = 0\<rparr> \<lparr>IsSet = False, Get = 0\<rparr>
       = \<lparr>rewindToOldest = True, explicitOffset = None, explicitTimestamp = None\<rparr>"
  using getCheckpoint_offset_wins [of False "\<lparr>IsSet = True, Get = 1700000000\<rparr>" "\<lparr>IsSet = True, Get = 42\<rparr>"]
    getCheckpoint_offset_wins [of True "\<lparr>IsSet = True, Get = 1700000000\<rparr>" "\<lparr>IsSet = False, Get = 0\<rparr>"]
    getCheckpoint_offset_wins [of True "\<lparr>IsSet = False, Get = 0\<rparr>" "\<lparr>IsSet = False, Get = 0\<rparr>"]
  by (simp add: NewCheckpoint_def SetOffset_def SetTimeOffset_def)

end
